theory Spec2Isabelle
  imports Complex_Main "HOL-Library.Multiset" "HOL-Library.Sublist" "HOL-Library.Product_Lexorder"
begin

section \<open>Data model of wearhouse.py\<close>

text \<open>
  A reading of \<open>datetime.datetime.now()\<close>: the number of microseconds since the epoch
  (the resolution of a Python datetime). The clock is an input of every operation that
  reads it.
\<close>

type_synonym instant = int

text \<open>The dictionary built by \<open>TransactionLedger.add_transaction\<close>, one field per key.\<close>

record transaction_record =
  timestamp :: instant
  product_id :: int
  description :: string
  quantity_change :: int

text \<open>The class \<open>TransactionLedger\<close>: its only attribute is the list \<open>transactions\<close>.\<close>

record TransactionLedger =
  transactions :: "transaction_record list"

text \<open>
  A product is the positional list \<open>[id, name, category, price, stock]\<close>; the fields stand
  for the indices 0 to 4. The price is a Python number (a float from \<open>float(input())\<close>, or
  the integer 0 of the bundle row); the model leaves its type \<open>'p\<close> open and uses only its
  zero and its addition, and the seeded catalog instantiates it with the rationals.
\<close>

record 'p product =
  ident :: int
  pname :: string
  category :: string
  unit_price :: 'p
  stock_quantity :: int

text \<open>An order is the tuple \<open>(order_id, product_id, quantity)\<close>.\<close>

type_synonym order = "int \<times> int \<times> int"

text \<open>The module-level globals that the functions read and write.\<close>

record 'p state =
  INVENTORY :: "'p product list"
  ledger :: TransactionLedger
  order_queue :: "order list"
  backorder_queue :: "order list"
  delivery_truck :: "order list"

section \<open>The transaction ledger\<close>

definition add_transaction ::
    "instant \<Rightarrow> int \<Rightarrow> string \<Rightarrow> int \<Rightarrow> TransactionLedger \<Rightarrow> TransactionLedger" where
  "add_transaction now pid descr qty_change self =
     (let transaction_record =
            \<lparr>timestamp = now, product_id = pid, description = descr, quantity_change = qty_change\<rparr>
      in self\<lparr>transactions := transactions self @ [transaction_record]\<rparr>)"

section \<open>Seeded globals\<close>

text \<open>
  The seeded catalog. Its prices are decimal literals with a finite binary expansion
  (75.5, 120, 90, 150, 45.75), written here as rationals.
\<close>

definition initial_INVENTORY :: "rat product list" where
  "initial_INVENTORY =
     [\<lparr>ident = 101, pname = ''Gaming Mouse'', category = ''Electronics'',
        unit_price = 75.50, stock_quantity = 80\<rparr>,
      \<lparr>ident = 102, pname = ''Mechanical Keyboard'', category = ''Electronics'',
        unit_price = 120.00, stock_quantity = 50\<rparr>,
      \<lparr>ident = 103, pname = ''Webcam'', category = ''Electronics'',
        unit_price = 90.00, stock_quantity = 60\<rparr>,
      \<lparr>ident = 201, pname = ''Office Chair'', category = ''Furniture'',
        unit_price = 150.00, stock_quantity = 30\<rparr>,
      \<lparr>ident = 202, pname = ''Desk Lamp'', category = ''Furniture'',
        unit_price = 45.75, stock_quantity = 100\<rparr>,
      \<lparr>ident = 901, pname = ''Gamer PC Bundle'', category = ''Composite'',
        unit_price = 0, stock_quantity = 10\<rparr>]"

definition COMPOSITE_PRODUCTS :: "int \<rightharpoonup> int list" where
  "COMPOSITE_PRODUCTS = [901 \<mapsto> [101, 102, 103]]"

text \<open>
  The loop \<open>for product in INVENTORY: ledger.add_transaction(...)\<close> run at import; the
  k-th iteration reads the clock once, \<open>clock k\<close>.
\<close>

fun seed_ledger ::
    "(nat \<Rightarrow> instant) \<Rightarrow> nat \<Rightarrow> 'p product list \<Rightarrow> TransactionLedger \<Rightarrow> TransactionLedger" where
  "seed_ledger clock k [] l = l"
| "seed_ledger clock k (product # rest) l =
     seed_ledger clock (Suc k) rest
       (add_transaction (clock k) (ident product) ''initial stock'' (stock_quantity product) l)"

definition initial_state :: "(nat \<Rightarrow> instant) \<Rightarrow> rat state" where
  "initial_state clock =
     \<lparr>INVENTORY = initial_INVENTORY,
      ledger = seed_ledger clock 0 initial_INVENTORY \<lparr>transactions = []\<rparr>,
      order_queue = [],
      backorder_queue = [],
      delivery_truck = []\<rparr>"

section \<open>Helper functions\<close>

text \<open>\<open>_get_product_by_id\<close>: the first product whose index 0 equals the id, else \<open>None\<close>.\<close>

fun get_product_by_id :: "'p product list \<Rightarrow> int \<Rightarrow> 'p product option" where
  "get_product_by_id [] pid = None"
| "get_product_by_id (product # rest) pid =
     (if ident product = pid then Some product else get_product_by_id rest pid)"

text \<open>
  The builtin \<open>sum\<close> over a generator: it starts from 0 and adds the items from left to
  right; an item whose evaluation raises ends the sum with that exception (\<open>None\<close>).
\<close>

fun sum_from :: "'p::plus \<Rightarrow> 'p option list \<Rightarrow> 'p option" where
  "sum_from acc [] = Some acc"
| "sum_from acc (None # rest) = None"
| "sum_from acc (Some v # rest) = sum_from (acc + v) rest"

definition py_sum :: "'p::{zero,plus} option list \<Rightarrow> 'p option" where
  "py_sum items = sum_from 0 items"

text \<open>
  The builtin \<open>max\<close> over a generator of integers: \<open>None\<close> stands for the ValueError it
  raises on an empty sequence; otherwise it keeps the first item and replaces it by each
  later item that is greater.
\<close>

fun py_max :: "int list \<Rightarrow> int option" where
  "py_max [] = None"
| "py_max (x # xs) = Some (fold (\<lambda>item maxitem. if item > maxitem then item else maxitem) xs x)"

text \<open>
  \<open>int(datetime.datetime.now().timestamp())\<close>: the clock reading in seconds, truncated
  towards zero.
\<close>

definition timestamp_seconds :: "instant \<Rightarrow> int" where
  "timestamp_seconds now =
     (if now \<ge> 0 then now div 1000000 else - ((- now) div 1000000))"

section \<open>The backorder heap (heapq)\<close>

text \<open>
  Python compares two tuples at the first position where they differ; orders are triples
  of integers.
\<close>

definition order_lt :: "order \<Rightarrow> order \<Rightarrow> bool" where
  "order_lt a b =
     (case a of (a0, a1, a2) \<Rightarrow> case b of (b0, b1, b2) \<Rightarrow>
        if a0 \<noteq> b0 then a0 < b0
        else if a1 \<noteq> b1 then a1 < b1
        else a2 < b2)"

text \<open>
  \<open>heapq._siftdown(heap, startpos, pos)\<close> of the standard library, which
  \<open>heapq.heappush\<close> calls. It reads \<open>newitem = heap[pos]\<close> and runs the loop below:
  the new item moves towards the root while it is smaller than its parent at
  \<open>(pos - 1) >> 1\<close>.
\<close>

function siftdown_loop :: "order list \<Rightarrow> nat \<Rightarrow> nat \<Rightarrow> order \<Rightarrow> order list" where
  "siftdown_loop heap startpos pos newitem =
     (if pos > startpos then
        (let parentpos = (pos - 1) div 2;
             parent = heap ! parentpos
         in if order_lt newitem parent
            then siftdown_loop (heap[pos := parent]) startpos parentpos newitem
            else heap[pos := newitem])
      else heap[pos := newitem])"
  by pat_completeness auto
termination
  by (relation "measure (\<lambda>(heap, startpos, pos, newitem). pos)") auto

declare siftdown_loop.simps [simp del]

definition siftdown :: "order list \<Rightarrow> nat \<Rightarrow> nat \<Rightarrow> order list" where
  "siftdown heap startpos pos = siftdown_loop heap startpos pos (heap ! pos)"

text \<open>\<open>heapq.heappush(heap, item)\<close>: append, then sift the last position down to 0.\<close>

definition heappush :: "order list \<Rightarrow> order \<Rightarrow> order list" where
  "heappush heap item = (let heap = heap @ [item] in siftdown heap 0 (length heap - 1))"

text \<open>
  \<open>heapq.heappop\<close> and \<open>heapq._siftup\<close> of the same library module. \<open>heappop\<close>
  removes the last element, returns the former root and sifts the last element in from
  the root; the loop of \<open>_siftup\<close> moves the smaller child up until a leaf is reached,
  and \<open>_siftdown\<close> then settles the item from that leaf. \<open>None\<close> is the IndexError of
  \<open>heap.pop()\<close> on an empty list.
\<close>

function siftup_loop :: "order list \<Rightarrow> nat \<Rightarrow> order list \<times> nat" where
  "siftup_loop heap pos =
     (let endpos = length heap;
          childpos = 2 * pos + 1
      in if childpos < endpos then
           (let rightpos = childpos + 1;
                childpos = (if rightpos < endpos \<and> \<not> order_lt (heap ! childpos) (heap ! rightpos)
                            then rightpos else childpos)
            in siftup_loop (heap[pos := heap ! childpos]) childpos)
         else (heap, pos))"
  by pat_completeness auto
termination
  by (relation "measure (\<lambda>(heap, pos). length heap - pos)") (auto simp: Let_def)

declare siftup_loop.simps [simp del]

definition siftup :: "order list \<Rightarrow> nat \<Rightarrow> order list" where
  "siftup heap pos =
     (let startpos = pos;
          newitem = heap ! pos
      in case siftup_loop heap pos of
           (heap, pos) \<Rightarrow> siftdown (heap[pos := newitem]) startpos pos)"

definition heappop :: "order list \<Rightarrow> (order \<times> order list) option" where
  "heappop heap =
     (if heap = [] then None
      else (let lastelt = last heap;
                heap = butlast heap
            in if heap \<noteq> []
               then (let returnitem = heap ! 0
                     in Some (returnitem, siftup (heap[0 := lastelt]) 0))
               else Some (lastelt, heap)))"

text \<open>
  Modelled from the spec: \<open>peek_min\<close> of the backorder queue. The source only pushes onto
  \<open>backorder_queue\<close> and never reads it; the specification's \<open>peek_min\<close> is taken to be
  the read \<open>heap[0]\<close> that \<open>heapq\<close> documents for the smallest item, \<open>None\<close> on an empty
  queue.
\<close>

definition peek_min :: "order list \<Rightarrow> order option" where
  "peek_min heap = (if heap = [] then None else Some (heap ! 0))"

text \<open>
  Modelled from the spec: \<open>pop_min\<close> of the backorder queue. The source has no removal
  from \<open>backorder_queue\<close>; the specification's \<open>pop_min\<close> is taken to be \<open>heapq.heappop\<close>
  on the list that \<open>heapq.heappush\<close> maintains. It returns the removed order and the
  remaining queue.
\<close>

definition pop_min :: "order list \<Rightarrow> (order \<times> order list) option" where
  "pop_min heap = heappop heap"

section \<open>Core functionality\<close>

text \<open>
  \<open>calculate_composite_cost\<close>. The composite index and the catalog are the globals it
  reads. The first argument is the number of nested calls the interpreter still allows:
  a recursion that needs more raises RecursionError, which is the result \<open>None\<close>.
\<close>

fun calculate_composite_cost ::
    "nat \<Rightarrow> (int \<rightharpoonup> int list) \<Rightarrow> 'p::{zero,plus} product list \<Rightarrow> int \<Rightarrow> 'p option" where
  "calculate_composite_cost 0 composite inventory pid = None"
| "calculate_composite_cost (Suc depth) composite inventory pid =
     (case composite pid of
        None \<Rightarrow>
          (case get_product_by_id inventory pid of
             Some product \<Rightarrow> Some (unit_price product)
           | None \<Rightarrow> Some 0)
      | Some parts \<Rightarrow>
          py_sum (map (calculate_composite_cost depth composite inventory) parts))"

text \<open>
  \<open>add_new_product\<close>. The two text inputs are passed as they are; \<open>price_in\<close> and
  \<open>stock_in\<close> are the results of \<open>float(input())\<close> and \<open>int(input())\<close>, \<open>None\<close> when the
  conversion raises ValueError. The ValueError of \<open>max\<close> on an empty catalog reaches the
  same handler.
\<close>

datatype add_outcome = Added int | Invalid_input

definition add_new_product ::
    "instant \<Rightarrow> string \<Rightarrow> string \<Rightarrow> 'p option \<Rightarrow> int option \<Rightarrow> 'p state
       \<Rightarrow> add_outcome \<times> 'p state" where
  "add_new_product now name_in category_in price_in stock_in s =
     (case price_in of
        None \<Rightarrow> (Invalid_input, s)
      | Some price \<Rightarrow>
     (case stock_in of
        None \<Rightarrow> (Invalid_input, s)
      | Some stock \<Rightarrow>
     (case py_max (map ident (INVENTORY s)) of
        None \<Rightarrow> (Invalid_input, s)
      | Some m \<Rightarrow>
          (let new_id = m + 1;
               new_product = \<lparr>ident = new_id, pname = name_in, category = category_in,
                              unit_price = price, stock_quantity = stock\<rparr>
           in (Added new_id,
               s\<lparr>INVENTORY := INVENTORY s @ [new_product],
                 ledger := add_transaction now new_id ''initial stock'' stock (ledger s)\<rparr>)))))"

text \<open>
  \<open>place_order\<close>. \<open>pid_in\<close> and \<open>quantity_in\<close> are the results of the two \<open>int(input())\<close>
  conversions; the clock is read after both.
\<close>

datatype order_outcome =
    Product_not_found
  | Invalid_number
  | Placed_in_order_queue order
  | Placed_in_backorder_queue order

definition place_order ::
    "instant \<Rightarrow> int option \<Rightarrow> int option \<Rightarrow> 'p state \<Rightarrow> order_outcome \<times> 'p state" where
  "place_order now pid_in quantity_in s =
     (case pid_in of
        None \<Rightarrow> (Invalid_number, s)
      | Some pid \<Rightarrow>
     (case get_product_by_id (INVENTORY s) pid of
        None \<Rightarrow> (Product_not_found, s)
      | Some product \<Rightarrow>
     (case quantity_in of
        None \<Rightarrow> (Invalid_number, s)
      | Some quantity \<Rightarrow>
          (let order_id = timestamp_seconds now;
               order = (order_id, pid, quantity)
           in if stock_quantity product \<ge> quantity
              then (Placed_in_order_queue order,
                    s\<lparr>order_queue := order_queue s @ [order]\<rparr>)
              else (Placed_in_backorder_queue order,
                    s\<lparr>backorder_queue := heappush (backorder_queue s) order\<rparr>)))))"

section \<open>Sequences of calls and the menu loop\<close>

text \<open>
  A run of \<open>add_new_product\<close> calls, each with its clock reading and its four inputs;
  the outcomes are collected in call order.
\<close>

type_synonym 'p add_call = "instant \<times> string \<times> string \<times> 'p option \<times> int option"

fun add_calls :: "'p add_call list \<Rightarrow> 'p state \<Rightarrow> add_outcome list \<times> 'p state" where
  "add_calls [] s = ([], s)"
| "add_calls ((now, name_in, category_in, price_in, stock_in) # rest) s =
     (case add_new_product now name_in category_in price_in stock_in s of
        (outcome, s') \<Rightarrow>
          (case add_calls rest s' of
             (outcomes, s'') \<Rightarrow> (outcome # outcomes, s'')))"

text \<open>
  One pass of the loop in \<open>main\<close>, by the menu choice and the inputs it consumes. Only the
  choices 2 and 4 call a function that writes a global; the choices 1, 3, 5, 6 and 7 and
  an unknown choice print and leave every global as it is. Choice 8 leaves the loop, and
  so does choice 7 with an entry that is not a number: its \<open>int(input())\<close> stands outside
  any handler, and the ValueError ends the program.
\<close>

datatype 'p command =
    Generate_report
  | Add_product instant string string "'p option" "int option"
  | View_ledger
  | Place_order instant "int option" "int option"
  | Process_next
  | Dispatch_truck
  | Composite_cost "int option"
  | Invalid_choice
  | Exit

fun run_command :: "'p command \<Rightarrow> 'p state \<Rightarrow> 'p state" where
  "run_command (Add_product now name_in category_in price_in stock_in) s =
     snd (add_new_product now name_in category_in price_in stock_in s)"
| "run_command (Place_order now pid_in quantity_in) s =
     snd (place_order now pid_in quantity_in s)"
| "run_command c s = s"

fun main_loop :: "'p command list \<Rightarrow> 'p state \<Rightarrow> 'p state" where
  "main_loop [] s = s"
| "main_loop (Exit # rest) s = s"
| "main_loop (Composite_cost None # rest) s = s"
| "main_loop (c # rest) s = main_loop rest (run_command c s)"

section \<open>Properties used in the statements\<close>

text \<open>
  The heap property that \<open>heapq\<close> documents for a heap list: no element is smaller than
  its parent, the parent of position \<open>k\<close> being \<open>(k - 1) // 2\<close>.
\<close>

definition heap_invariant :: "order list \<Rightarrow> bool" where
  "heap_invariant heap =
     (\<forall>k. 0 < k \<and> k < length heap \<longrightarrow> \<not> order_lt (heap ! k) (heap ! ((k - 1) div 2)))"

section \<open>The heap operations keep the heap property\<close>

lemma order_lt_iff_less: "order_lt a b \<longleftrightarrow> a < b"
  by (auto simp: order_lt_def less_prod_def split: prod.splits)

lemma heap_invariant_le:
  "heap_invariant heap \<longleftrightarrow> (\<forall>k. 0 < k \<and> k < length heap \<longrightarrow> heap ! ((k - 1) div 2) \<le> heap ! k)"
  by (auto simp: heap_invariant_def order_lt_iff_less not_less)

lemma length_siftdown: "length (siftdown_loop heap startpos pos newitem) = length heap"
  by (induction heap startpos pos newitem rule: siftdown_loop.induct)
     (subst siftdown_loop.simps, simp add: Let_def)

lemma mset_siftdown:
  "pos < length heap \<Longrightarrow> mset (siftdown_loop heap startpos pos newitem) = mset (heap[pos := newitem])"
proof (induction heap startpos pos newitem rule: siftdown_loop.induct)
  case (1 heap startpos pos newitem)
  let ?pp = "(pos - 1) div 2"
  show ?case
  proof (cases "pos > startpos \<and> order_lt newitem (heap ! ?pp)")
    case True
    then have pp: "?pp < pos" by arith
    with "1.prems" have "?pp < length (heap[pos := heap ! ?pp])" by simp
    with "1.IH" True
    have "mset (siftdown_loop (heap[pos := heap ! ?pp]) startpos ?pp newitem)
            = mset (heap[pos := heap ! ?pp, ?pp := newitem])" by simp
    also have "\<dots> = mset (heap[pos := newitem])"
      using "1.prems" pp by (simp add: mset_update nth_list_update)
    finally show ?thesis using True by (subst siftdown_loop.simps) (simp add: Let_def)
  next
    case False
    then show ?thesis by (subst siftdown_loop.simps) (auto simp add: Let_def)
  qed
qed

lemma siftdown_heap_invariant:
  assumes "pos < length heap"
    and "\<forall>k. 0 < k \<and> k < length heap \<and> k \<noteq> pos \<longrightarrow> heap ! ((k - 1) div 2) \<le> heap ! k"
    and "\<forall>k. 0 < k \<and> k < length heap \<and> (k - 1) div 2 = pos \<longrightarrow> newitem \<le> heap ! k"
    and "\<forall>k. 0 < k \<and> k < length heap \<and> (k - 1) div 2 = pos \<and> 0 < pos
            \<longrightarrow> heap ! ((pos - 1) div 2) \<le> heap ! k"
  shows "heap_invariant (siftdown_loop heap 0 pos newitem)"
  using assms
proof (induction heap "0::nat" pos newitem rule: siftdown_loop.induct)
  case (1 heap pos newitem)
  let ?pp = "(pos - 1) div 2"
  show ?case
  proof (cases "pos > 0 \<and> order_lt newitem (heap ! ?pp)")
    case True
    let ?h = "heap[pos := heap ! ?pp]"
    from True have pp: "?pp < pos" by arith
    have lt: "newitem < heap ! ?pp" using True by (simp add: order_lt_iff_less)
    have b: "\<forall>k. 0 < k \<and> k < length ?h \<and> k \<noteq> ?pp \<longrightarrow> ?h ! ((k - 1) div 2) \<le> ?h ! k"
    proof (intro allI impI)
      fix k assume k: "0 < k \<and> k < length ?h \<and> k \<noteq> ?pp"
      show "?h ! ((k - 1) div 2) \<le> ?h ! k"
      proof (cases "k = pos")
        case True
        then show ?thesis using pp "1.prems"(1) by (simp add: nth_list_update)
      next
        case kp: False
        show ?thesis
        proof (cases "(k - 1) div 2 = pos")
          case True
          then have "heap ! ?pp \<le> heap ! k" using "1.prems"(4) k \<open>pos > 0 \<and> _\<close> by simp
          then show ?thesis using True kp k "1.prems"(1) by (simp add: nth_list_update)
        next
          case False
          then show ?thesis using "1.prems"(2) k kp by (simp add: nth_list_update)
        qed
      qed
    qed
    have c: "\<forall>k. 0 < k \<and> k < length ?h \<and> (k - 1) div 2 = ?pp \<longrightarrow> newitem \<le> ?h ! k"
    proof (intro allI impI)
      fix k assume k: "0 < k \<and> k < length ?h \<and> (k - 1) div 2 = ?pp"
      show "newitem \<le> ?h ! k"
      proof (cases "k = pos")
        case True
        then show ?thesis using lt "1.prems"(1) by simp
      next
        case False
        then have "heap ! ?pp \<le> heap ! k" using "1.prems"(2) k by auto
        then show ?thesis using lt False by (simp add: nth_list_update)
      qed
    qed
    have d: "\<forall>k. 0 < k \<and> k < length ?h \<and> (k - 1) div 2 = ?pp \<and> 0 < ?pp
               \<longrightarrow> ?h ! ((?pp - 1) div 2) \<le> ?h ! k"
    proof (intro allI impI)
      fix k assume k: "0 < k \<and> k < length ?h \<and> (k - 1) div 2 = ?pp \<and> 0 < ?pp"
      have gp: "(?pp - 1) div 2 \<noteq> pos" using pp by arith
      have g: "heap ! ((?pp - 1) div 2) \<le> heap ! ?pp"
        using "1.prems"(2) k pp "1.prems"(1) by auto
      show "?h ! ((?pp - 1) div 2) \<le> ?h ! k"
      proof (cases "k = pos")
        case True
        then show ?thesis using g gp "1.prems"(1) by (simp add: nth_list_update)
      next
        case False
        then have "heap ! ?pp \<le> heap ! k" using "1.prems"(2) k by auto
        then show ?thesis using g gp False by (simp add: nth_list_update)
      qed
    qed
    have "heap_invariant (siftdown_loop ?h 0 ?pp newitem)"
      using "1.hyps"[OF _ refl refl _ _ b c d] True pp "1.prems"(1) by simp
    then show ?thesis using True by (subst siftdown_loop.simps) (simp add: Let_def)
  next
    case False
    have "heap_invariant (heap[pos := newitem])"
      unfolding heap_invariant_le
    proof (intro allI impI)
      fix k assume k: "0 < k \<and> k < length (heap[pos := newitem])"
      show "heap[pos := newitem] ! ((k - 1) div 2) \<le> heap[pos := newitem] ! k"
      proof (cases "k = pos")
        case True
        then have "(k - 1) div 2 \<noteq> pos" using k by arith
        moreover have "heap ! ?pp \<le> newitem" using False k True
          by (simp add: order_lt_iff_less not_less)
        ultimately show ?thesis using True "1.prems"(1) by (simp add: nth_list_update)
      next
        case kp: False
        show ?thesis
        proof (cases "(k - 1) div 2 = pos")
          case True
          then show ?thesis using "1.prems"(1,3) k kp by (simp add: nth_list_update)
        next
          case False
          then show ?thesis using "1.prems"(2) k kp by (simp add: nth_list_update)
        qed
      qed
    qed
    then show ?thesis using False by (subst siftdown_loop.simps) (auto simp add: Let_def)
  qed
qed

lemma heappush_eq: "heappush heap item = siftdown_loop (heap @ [item]) 0 (length heap) item"
  by (simp add: heappush_def siftdown_def)

lemma heappush_heap_invariant:
  assumes "heap_invariant heap"
  shows "heap_invariant (heappush heap item)"
  unfolding heappush_eq
proof (rule siftdown_heap_invariant)
  show "length heap < length (heap @ [item])" by simp
  show "\<forall>k. 0 < k \<and> k < length (heap @ [item]) \<and> k \<noteq> length heap
          \<longrightarrow> (heap @ [item]) ! ((k - 1) div 2) \<le> (heap @ [item]) ! k"
  proof (intro allI impI)
    fix k assume k: "0 < k \<and> k < length (heap @ [item]) \<and> k \<noteq> length heap"
    then have "k < length heap" "(k - 1) div 2 < length heap" by auto
    then show "(heap @ [item]) ! ((k - 1) div 2) \<le> (heap @ [item]) ! k"
      using assms k by (simp add: nth_append heap_invariant_le)
  qed
  show "\<forall>k. 0 < k \<and> k < length (heap @ [item]) \<and> (k - 1) div 2 = length heap
          \<longrightarrow> item \<le> (heap @ [item]) ! k"
    by auto
  show "\<forall>k. 0 < k \<and> k < length (heap @ [item]) \<and> (k - 1) div 2 = length heap \<and> 0 < length heap
          \<longrightarrow> (heap @ [item]) ! ((length heap - 1) div 2) \<le> (heap @ [item]) ! k"
    by auto
qed

lemma mset_heappush: "mset (heappush heap item) = add_mset item (mset heap)"
  by (simp add: heappush_eq mset_siftdown)

lemma heap_root_least:
  assumes "heap_invariant heap" and "k < length heap"
  shows "heap ! 0 \<le> heap ! k"
  using assms(2)
proof (induction k rule: less_induct)
  case (less k)
  show ?case
  proof (cases "k = 0")
    case True
    then show ?thesis by simp
  next
    case False
    then have "(k - 1) div 2 < k" by arith
    moreover have "heap ! ((k - 1) div 2) \<le> heap ! k"
      using assms(1) False less.prems by (simp add: heap_invariant_le)
    ultimately show ?thesis using less.IH[of "(k - 1) div 2"] less.prems by auto
  qed
qed

lemma mset_move_update:
  "i < length h \<Longrightarrow> j < length h \<Longrightarrow> i \<noteq> j \<Longrightarrow> mset (h[i := h ! j, j := x]) = mset (h[i := x])"
  by (simp add: mset_update nth_list_update)

lemma siftup_loop_invariant:
  assumes "pos < length heap"
    and "\<forall>k. 0 < k \<and> k < length heap \<and> (k - 1) div 2 \<noteq> pos \<longrightarrow> heap ! ((k - 1) div 2) \<le> heap ! k"
    and "\<forall>k. 0 < k \<and> k < length heap \<and> (k - 1) div 2 = pos \<and> 0 < pos
            \<longrightarrow> heap ! ((pos - 1) div 2) \<le> heap ! k"
    and "siftup_loop heap pos = (heap', pos')"
  shows "length heap' = length heap \<and> pos' < length heap \<and> length heap \<le> 2 * pos' + 1
           \<and> heap_invariant heap' \<and> mset (heap'[pos' := x]) = mset (heap[pos := x])"
  using assms
proof (induction heap pos rule: siftup_loop.induct)
  case (1 heap pos)
  let ?l = "2 * pos + 1"
  let ?r = "2 * pos + 2"
  show ?case
  proof (cases "?l < length heap")
    case False
    then have "heap' = heap" "pos' = pos"
      using "1.prems"(4) by (subst (asm) siftup_loop.simps, simp add: Let_def)+
    moreover have "heap_invariant heap"
      unfolding heap_invariant_le
    proof (intro allI impI)
      fix k assume k: "0 < k \<and> k < length heap"
      then have "(k - 1) div 2 \<noteq> pos" using False by arith
      then show "heap ! ((k - 1) div 2) \<le> heap ! k" using "1.prems"(2) k by simp
    qed
    ultimately show ?thesis using False "1.prems"(1) by simp
  next
    case True
    define c where
      "c = (if ?l + 1 < length heap \<and> \<not> order_lt (heap ! ?l) (heap ! (?l + 1)) then ?l + 1 else ?l)"
    let ?h = "heap[pos := heap ! c]"
    have c_range: "c < length heap" "pos < c" "(c - 1) div 2 = pos" "c = ?l \<or> c = ?r"
      using True by (auto simp: c_def)
    have c_least: "\<forall>k. 0 < k \<and> k < length heap \<and> (k - 1) div 2 = pos \<longrightarrow> heap ! c \<le> heap ! k"
    proof (intro allI impI)
      fix k assume k: "0 < k \<and> k < length heap \<and> (k - 1) div 2 = pos"
      then have "k = ?l \<or> k = ?r" by arith
      then show "heap ! c \<le> heap ! k"
        using k by (auto simp: c_def order_lt_iff_less not_less)
    qed
    have rec: "siftup_loop ?h c = (heap', pos')"
      using "1.prems"(4) True
      by (subst (asm) siftup_loop.simps) (auto simp add: Let_def c_def)
    have j1: "\<forall>k. 0 < k \<and> k < length ?h \<and> (k - 1) div 2 \<noteq> c \<longrightarrow> ?h ! ((k - 1) div 2) \<le> ?h ! k"
    proof (intro allI impI)
      fix k assume k: "0 < k \<and> k < length ?h \<and> (k - 1) div 2 \<noteq> c"
      show "?h ! ((k - 1) div 2) \<le> ?h ! k"
      proof (cases "k = pos")
        case True
        then have "(k - 1) div 2 \<noteq> pos" using k by arith
        moreover have "heap ! ((pos - 1) div 2) \<le> heap ! c"
          using "1.prems"(3) c_range k True by simp
        ultimately show ?thesis using True "1.prems"(1) by (simp add: nth_list_update)
      next
        case kp: False
        show ?thesis
        proof (cases "(k - 1) div 2 = pos")
          case True
          then show ?thesis using c_least k kp "1.prems"(1) by (simp add: nth_list_update)
        next
          case False
          then show ?thesis using "1.prems"(2) k kp by (simp add: nth_list_update)
        qed
      qed
    qed
    have j2: "\<forall>k. 0 < k \<and> k < length ?h \<and> (k - 1) div 2 = c \<and> 0 < c
                \<longrightarrow> ?h ! ((c - 1) div 2) \<le> ?h ! k"
    proof (intro allI impI)
      fix k assume k: "0 < k \<and> k < length ?h \<and> (k - 1) div 2 = c \<and> 0 < c"
      then have "k \<noteq> pos" "(k - 1) div 2 \<noteq> pos" using c_range by arith+
      then have "0 < k \<and> k < length heap \<and> (k - 1) div 2 \<noteq> pos" using k by simp
      then have "heap ! ((k - 1) div 2) \<le> heap ! k" by (rule "1.prems"(2)[rule_format])
      then have "heap ! c \<le> heap ! k" using k by simp
      then show "?h ! ((c - 1) div 2) \<le> ?h ! k"
        using c_range \<open>k \<noteq> pos\<close> "1.prems"(1) by (simp add: nth_list_update)
    qed
    note IH = "1.IH"[OF refl refl True refl c_def]
    have "length heap' = length ?h \<and> pos' < length ?h \<and> length ?h \<le> 2 * pos' + 1
            \<and> heap_invariant heap' \<and> mset (heap'[pos' := x]) = mset (?h[c := x])"
      using IH[OF _ j1 j2 rec] c_range by simp
    moreover have "mset (?h[c := x]) = mset (heap[pos := x])"
      using mset_move_update[of pos heap c x] c_range "1.prems"(1) by simp
    ultimately show ?thesis by simp
  qed
qed

lemma heappop_correct:
  assumes "heap_invariant heap" and "heap \<noteq> []"
  shows "\<exists>heap'. heappop heap = Some (heap ! 0, heap') \<and> heap_invariant heap'
           \<and> mset heap = add_mset (heap ! 0) (mset heap')"
proof (cases "butlast heap = []")
  case True
  then have "heap = [last heap]" using assms(2) by (metis append_butlast_last_id append_Nil)
  then obtain a where "heap = [a]" ..
  then show ?thesis
    by (simp add: heappop_def Let_def heap_invariant_def)
next
  case False
  let ?b = "butlast heap"
  let ?x = "last heap"
  let ?h = "?b[0 := ?x]"
  have b_nth: "\<And>i. i < length ?b \<Longrightarrow> ?b ! i = heap ! i" by (simp add: nth_butlast)
  have len: "0 < length ?b" using False by (simp del: length_butlast)
  obtain h1 p1 where loop: "siftup_loop ?h 0 = (h1, p1)" by (cases "siftup_loop ?h 0")
  have j1: "\<forall>k. 0 < k \<and> k < length ?h \<and> (k - 1) div 2 \<noteq> 0 \<longrightarrow> ?h ! ((k - 1) div 2) \<le> ?h ! k"
  proof (intro allI impI)
    fix k assume k: "0 < k \<and> k < length ?h \<and> (k - 1) div 2 \<noteq> 0"
    then have "(k - 1) div 2 < length ?b" "k < length heap" by auto
    then show "?h ! ((k - 1) div 2) \<le> ?h ! k"
      using assms(1) k by (simp add: heap_invariant_le nth_list_update b_nth)
  qed
  have inv: "length h1 = length ?h \<and> p1 < length ?h \<and> length ?h \<le> 2 * p1 + 1
           \<and> heap_invariant h1 \<and> mset (h1[p1 := ?x]) = mset (?h[0 := ?x])"
    by (rule siftup_loop_invariant[OF _ j1 _ loop]) (use len in auto)
  let ?g = "h1[p1 := ?x]"
  have res: "siftup ?h 0 = siftdown_loop ?g 0 p1 ?x"
    using loop inv len by (simp add: siftup_def siftdown_def Let_def)
  have "heap_invariant (siftdown_loop ?g 0 p1 ?x)"
  proof (rule siftdown_heap_invariant)
    show "p1 < length ?g" using inv by simp
    show "\<forall>k. 0 < k \<and> k < length ?g \<and> k \<noteq> p1 \<longrightarrow> ?g ! ((k - 1) div 2) \<le> ?g ! k"
    proof (intro allI impI)
      fix k assume k: "0 < k \<and> k < length ?g \<and> k \<noteq> p1"
      then have "(k - 1) div 2 \<noteq> p1" using inv by auto
      then show "?g ! ((k - 1) div 2) \<le> ?g ! k"
        using inv k by (simp add: heap_invariant_le nth_list_update)
    qed
    show "\<forall>k. 0 < k \<and> k < length ?g \<and> (k - 1) div 2 = p1 \<longrightarrow> ?x \<le> ?g ! k"
      using inv by auto
    show "\<forall>k. 0 < k \<and> k < length ?g \<and> (k - 1) div 2 = p1 \<and> 0 < p1
            \<longrightarrow> ?g ! ((p1 - 1) div 2) \<le> ?g ! k"
      using inv by auto
  qed
  moreover have "mset (siftdown_loop ?g 0 p1 ?x) = mset ?h"
    using inv by (simp add: mset_siftdown)
  moreover have "mset heap = add_mset (heap ! 0) (mset ?h)"
  proof -
    have "mset (?b @ [?x]) = add_mset ?x (mset ?b)" by simp
    then have "mset heap = add_mset ?x (mset ?b)"
      by (simp only: append_butlast_last_id[OF assms(2)])
    moreover have "mset ?h = add_mset ?x (mset ?b - {#?b ! 0#})" using len by (simp add: mset_update)
    moreover have "?b ! 0 \<in># mset ?b" using len by simp
    moreover have "?b ! 0 = heap ! 0" using len by (simp add: b_nth)
    ultimately show ?thesis by (simp add: insert_DiffM)
  qed
  moreover have "heappop heap = Some (heap ! 0, siftup ?h 0)"
  proof -
    have "heappop heap = Some (?b ! 0, siftup ?h 0)"
      using False assms(2) by (simp add: heappop_def Let_def)
    then show ?thesis by (simp only: b_nth[OF len])
  qed
  ultimately show ?thesis using res by simp
qed

section \<open>Lookup, sum and maximum\<close>

lemma get_product_by_id_None_iff:
  "get_product_by_id inventory pid = None \<longleftrightarrow> pid \<notin> ident ` set inventory"
  by (induction inventory) auto

lemma get_product_by_id_Some:
  "get_product_by_id inventory pid = Some product \<Longrightarrow> product \<in> set inventory \<and> ident product = pid"
  by (induction inventory) (auto split: if_splits)

lemma get_product_by_id_filter:
  "x \<noteq> pid \<Longrightarrow>
     get_product_by_id (filter (\<lambda>p. ident p \<noteq> pid) inventory) x = get_product_by_id inventory x"
  by (induction inventory) auto

lemma sum_from_values: "sum_from acc (map Some vs) = Some (foldl (+) acc vs)"
  by (induction vs arbitrary: acc) auto

lemma sum_from_Some:
  "sum_from acc items = Some v \<Longrightarrow> \<exists>vs. items = map Some vs \<and> v = foldl (+) acc vs"
proof (induction acc items rule: sum_from.induct)
  case (1 acc)
  then show ?case by simp
next
  case (2 acc rest)
  then show ?case by simp
next
  case (3 acc v' rest)
  then obtain vs where "rest = map Some vs" "v = foldl (+) (acc + v') vs" by auto
  then have "Some v' # rest = map Some (v' # vs) \<and> v = foldl (+) acc (v' # vs)" by simp
  then show ?case by (rule exI[where x = "v' # vs"])
qed

lemma cost_depth_mono:
  "calculate_composite_cost d composite inventory pid = Some v \<Longrightarrow> d \<le> d' \<Longrightarrow>
     calculate_composite_cost d' composite inventory pid = Some v"
proof (induction d arbitrary: d' pid v)
  case 0
  then show ?case by simp
next
  case (Suc d)
  then obtain e where d': "d' = Suc e" "d \<le> e" by (cases d') auto
  show ?case
  proof (cases "composite pid")
    case None
    then show ?thesis using Suc.prems(1) d' by simp
  next
    case (Some parts)
    from Suc.prems(1) Some
    obtain vs where vs: "map (calculate_composite_cost d composite inventory) parts = map Some vs"
      and v: "v = foldl (+) 0 vs"
      using sum_from_Some by (fastforce simp: py_sum_def)
    have "map (calculate_composite_cost e composite inventory) parts = map Some vs"
    proof (rule nth_equalityI)
      show "length (map (calculate_composite_cost e composite inventory) parts) = length (map Some vs)"
        using arg_cong[OF vs, of length] by simp
    next
      fix i assume i: "i < length (map (calculate_composite_cost e composite inventory) parts)"
      then have "calculate_composite_cost d composite inventory (parts ! i) = Some (vs ! i)"
        using arg_cong[OF vs, of "\<lambda>l. l ! i"] arg_cong[OF vs, of length] by simp
      then have "calculate_composite_cost e composite inventory (parts ! i) = Some (vs ! i)"
        using Suc.IH d' by blast
      then show "map (calculate_composite_cost e composite inventory) parts ! i = map Some vs ! i"
        using i arg_cong[OF vs, of length] by simp
    qed
    then show ?thesis using Some d' v by (simp add: py_sum_def sum_from_values)
  qed
qed

lemma py_max_eq_Max: "xs \<noteq> [] \<Longrightarrow> py_max xs = Some (Max (set xs))"
proof -
  have eq: "(\<lambda>item maxitem. if item > maxitem then item else maxitem) = (max :: int \<Rightarrow> int \<Rightarrow> int)"
    by (auto simp: fun_eq_iff max_def)
  assume "xs \<noteq> []"
  then obtain y ys where "xs = y # ys" by (cases xs) auto
  then show ?thesis by (simp only: py_max.simps eq Max.set_eq_fold)
qed

lemma py_max_None: "py_max xs = None \<longleftrightarrow> xs = []"
  by (cases xs) auto

section \<open>Order routing\<close>

lemma length_heappush: "length (heappush heap item) = Suc (length heap)"
  by (simp add: heappush_eq length_siftdown)

lemma heappush_neq: "heappush heap item \<noteq> heap"
  using length_heappush[of heap item] by auto

lemma mset_neq_add_mset: "mset heap \<noteq> add_mset item (mset heap)"
proof
  assume "mset heap = add_mset item (mset heap)"
  then have "size (mset heap) = size (add_mset item (mset heap))" by simp
  then show False by simp
qed

text \<open>
  Claim C1. For a product that the lookup finds, with stock \<open>S\<close>, and a submitted quantity
  \<open>Q\<close>, \<open>place_order\<close> appends the tuple (order id, product id, quantity) to the order
  queue exactly when \<open>S \<ge> Q\<close> and pushes the same tuple onto the backorder queue exactly
  when \<open>S < Q\<close>; the queue that does not receive the tuple is left as it was.
\<close>

theorem place_order_routing:
  assumes "get_product_by_id (INVENTORY s) pid = Some product"
  shows "let order = (timestamp_seconds now, pid, quantity);
             s' = snd (place_order now (Some pid) (Some quantity) s)
         in (stock_quantity product \<ge> quantity \<longleftrightarrow> order_queue s' = order_queue s @ [order])
          \<and> (stock_quantity product \<ge> quantity \<longleftrightarrow> backorder_queue s' = backorder_queue s)
          \<and> (stock_quantity product < quantity \<longleftrightarrow> order_queue s' = order_queue s)
          \<and> (stock_quantity product < quantity \<longleftrightarrow>
               mset (backorder_queue s') = add_mset order (mset (backorder_queue s)))
          \<and> fst (place_order now (Some pid) (Some quantity) s) =
               (if stock_quantity product \<ge> quantity then Placed_in_order_queue order
                else Placed_in_backorder_queue order)"
proof (cases "stock_quantity product \<ge> quantity")
  case True
  then show ?thesis using assms
    by (simp add: place_order_def Let_def mset_neq_add_mset)
next
  case False
  then show ?thesis using assms
    by (simp add: place_order_def Let_def mset_heappush heappush_neq)
qed

theorem place_order_routing_witness:
  "get_product_by_id initial_INVENTORY 901
     = Some \<lparr>ident = 901, pname = ''Gamer PC Bundle'', category = ''Composite'',
             unit_price = 0, stock_quantity = 10\<rparr>
   \<and> fst (place_order 5000000 (Some 901) (Some 10) (initial_state (\<lambda>k. 0)))
       = Placed_in_order_queue (5, 901, 10)
   \<and> fst (place_order 5000000 (Some 901) (Some 11) (initial_state (\<lambda>k. 0)))
       = Placed_in_backorder_queue (5, 901, 11)"
proof -
  let ?p = "\<lparr>ident = 901, pname = ''Gamer PC Bundle'', category = ''Composite'',
             unit_price = 0 :: rat, stock_quantity = 10\<rparr>"
  have h: "get_product_by_id (INVENTORY (initial_state (\<lambda>k. 0))) 901 = Some ?p"
    by (simp add: initial_state_def initial_INVENTORY_def)
  show ?thesis
    using place_order_routing[OF h, where quantity = 10 and now = 5000000]
      place_order_routing[OF h, where quantity = 11 and now = 5000000] h
    by (simp add: Let_def timestamp_seconds_def initial_state_def)
qed

section \<open>Frame and failure behaviour\<close>

text \<open>
  Claim C7. Whatever the inputs and whichever branch is taken, \<open>place_order\<close> returns a
  state whose catalog is the catalog it started from: no stock is decremented and no
  product is added, removed or changed.
\<close>

theorem place_order_catalog_unchanged:
  "INVENTORY (snd (place_order now pid_in quantity_in s)) = INVENTORY s"
  by (simp add: place_order_def Let_def split: option.splits)

theorem place_order_catalog_unchanged_witness:
  "INVENTORY (snd (place_order 5000000 (Some 901) (Some 11) (initial_state (\<lambda>k. 0))))
     = initial_INVENTORY
   \<and> INVENTORY (snd (place_order 5000000 (Some 901) (Some 10) (initial_state (\<lambda>k. 0))))
     = initial_INVENTORY"
  using place_order_catalog_unchanged[of 5000000 "Some 901" "Some 11" "initial_state (\<lambda>k. 0)"]
    place_order_catalog_unchanged[of 5000000 "Some 901" "Some 10" "initial_state (\<lambda>k. 0)"]
  by (simp add: initial_state_def)

text \<open>
  Claim C9. A call that fails leaves the whole state (catalog, ledger, order queue and
  backorder queue) as it was: \<open>add_new_product\<close> with a price or a stock entry that is not
  a number, and \<open>place_order\<close> with an entry that is not a number or with a product id
  that the catalog does not hold.
\<close>

theorem failed_calls_leave_state_unchanged:
  "(price_in = None \<or> stock_in = None \<longrightarrow>
      add_new_product now name_in category_in price_in stock_in s = (Invalid_input, s))
   \<and> (fst (add_new_product now name_in category_in price_in stock_in s) = Invalid_input \<longrightarrow>
      snd (add_new_product now name_in category_in price_in stock_in s) = s)
   \<and> (pid_in = None \<longrightarrow> place_order now pid_in quantity_in s = (Invalid_number, s))
   \<and> (pid_in = Some pid \<and> pid \<notin> ident ` set (INVENTORY s) \<longrightarrow>
      place_order now pid_in quantity_in s = (Product_not_found, s))
   \<and> (pid_in = Some pid \<and> pid \<in> ident ` set (INVENTORY s) \<and> quantity_in = None \<longrightarrow>
      place_order now pid_in quantity_in s = (Invalid_number, s))
   \<and> (fst (place_order now pid_in quantity_in s) \<in> {Product_not_found, Invalid_number} \<longrightarrow>
      snd (place_order now pid_in quantity_in s) = s)"
proof (intro conjI impI)
  assume "price_in = None \<or> stock_in = None"
  then show "add_new_product now name_in category_in price_in stock_in s = (Invalid_input, s)"
    by (auto simp: add_new_product_def split: option.splits)
next
  assume "fst (add_new_product now name_in category_in price_in stock_in s) = Invalid_input"
  then show "snd (add_new_product now name_in category_in price_in stock_in s) = s"
    by (auto simp: add_new_product_def Let_def split: option.splits)
next
  assume "pid_in = None"
  then show "place_order now pid_in quantity_in s = (Invalid_number, s)"
    by (simp add: place_order_def)
next
  assume "pid_in = Some pid \<and> pid \<notin> ident ` set (INVENTORY s)"
  then show "place_order now pid_in quantity_in s = (Product_not_found, s)"
    by (simp add: place_order_def get_product_by_id_None_iff[symmetric])
next
  assume a: "pid_in = Some pid \<and> pid \<in> ident ` set (INVENTORY s) \<and> quantity_in = None"
  then have "get_product_by_id (INVENTORY s) pid \<noteq> None"
    by (simp add: get_product_by_id_None_iff)
  then show "place_order now pid_in quantity_in s = (Invalid_number, s)"
    using a by (auto simp: place_order_def)
next
  assume "fst (place_order now pid_in quantity_in s) \<in> {Product_not_found, Invalid_number}"
  then show "snd (place_order now pid_in quantity_in s) = s"
    by (auto simp: place_order_def Let_def split: option.splits if_splits)
qed

theorem failed_calls_leave_state_unchanged_witness:
  "add_new_product 0 ''Monitor'' ''Electronics'' (None :: rat option) (Some 5)
       (initial_state (\<lambda>k. 0)) = (Invalid_input, initial_state (\<lambda>k. 0))
   \<and> add_new_product 0 ''Monitor'' ''Electronics'' (Some (199 :: rat)) None
       (initial_state (\<lambda>k. 0)) = (Invalid_input, initial_state (\<lambda>k. 0))
   \<and> place_order 0 None (Some 1) (initial_state (\<lambda>k. 0))
       = (Invalid_number, initial_state (\<lambda>k. 0))
   \<and> 999 \<notin> ident ` set (INVENTORY (initial_state (\<lambda>k. 0)))
   \<and> place_order 0 (Some 999) (Some 1) (initial_state (\<lambda>k. 0))
       = (Product_not_found, initial_state (\<lambda>k. 0))
   \<and> 101 \<in> ident ` set (INVENTORY (initial_state (\<lambda>k. 0)))
   \<and> place_order 0 (Some 101) None (initial_state (\<lambda>k. 0))
       = (Invalid_number, initial_state (\<lambda>k. 0))"
proof -
  let ?s = "initial_state (\<lambda>k. 0)"
  have a: "999 \<notin> ident ` set (INVENTORY ?s)" "101 \<in> ident ` set (INVENTORY ?s)"
    by (simp_all add: initial_state_def initial_INVENTORY_def)
  show ?thesis
    using a
      failed_calls_leave_state_unchanged[where price_in = "None :: rat option"
        and stock_in = "Some 5" and now = 0 and name_in = "''Monitor''"
        and category_in = "''Electronics''" and s = ?s and pid_in = None
        and quantity_in = "Some 1"]
      failed_calls_leave_state_unchanged[where price_in = "Some (199 :: rat)"
        and stock_in = None and now = 0 and name_in = "''Monitor''"
        and category_in = "''Electronics''" and s = ?s and pid_in = "Some 999"
        and pid = 999 and quantity_in = "Some 1"]
      failed_calls_leave_state_unchanged[where price_in = "None :: rat option"
        and stock_in = None and now = 0 and s = ?s and pid_in = "Some 101"
        and pid = 101 and quantity_in = None]
    by simp
qed

section \<open>The cost calculator\<close>

text \<open>
  Claim C8. For a product id that is neither a key of the composite index nor the id of a
  catalog row, \<open>calculate_composite_cost\<close> returns 0 and raises nothing, as soon as the
  interpreter allows the one call; for the seeded globals the cost of id 999 is 0.
\<close>

theorem cost_of_unknown_id_is_zero:
  "(composite pid = None \<and> pid \<notin> ident ` set inventory \<longrightarrow>
      calculate_composite_cost (Suc depth) composite inventory pid = Some 0)
   \<and> calculate_composite_cost (Suc depth) COMPOSITE_PRODUCTS initial_INVENTORY 999 = Some 0"
  by (simp add: get_product_by_id_None_iff[symmetric] COMPOSITE_PRODUCTS_def initial_INVENTORY_def)

theorem cost_of_unknown_id_is_zero_witness:
  "COMPOSITE_PRODUCTS 999 = None \<and> 999 \<notin> ident ` set initial_INVENTORY
   \<and> calculate_composite_cost 1 COMPOSITE_PRODUCTS initial_INVENTORY 999 = Some 0"
proof -
  have a: "COMPOSITE_PRODUCTS 999 = None \<and> 999 \<notin> ident ` set initial_INVENTORY"
    by (simp add: COMPOSITE_PRODUCTS_def initial_INVENTORY_def)
  then show ?thesis
    using cost_of_unknown_id_is_zero[of COMPOSITE_PRODUCTS 999 initial_INVENTORY 0] by simp
qed

lemma cost_ignores_composite_rows:
  assumes "composite pid = Some parts"
    and "filter (\<lambda>p. ident p \<noteq> pid) inventory = filter (\<lambda>p. ident p \<noteq> pid) inventory'"
  shows "calculate_composite_cost d composite inventory x
           = calculate_composite_cost d composite inventory' x"
proof (induction d arbitrary: x)
  case 0
  show ?case by simp
next
  case (Suc d)
  show ?case
  proof (cases "composite x")
    case None
    then have "x \<noteq> pid" using assms(1) by auto
    then have "get_product_by_id inventory x = get_product_by_id inventory' x"
      using get_product_by_id_filter[of x pid inventory] get_product_by_id_filter[of x pid inventory']
        assms(2) by simp
    then show ?thesis using None by simp
  next
    case (Some ps)
    have "calculate_composite_cost d composite inventory
            = calculate_composite_cost d composite inventory'"
      by (intro ext Suc.IH)
    then show ?thesis using Some by simp
  qed
qed

text \<open>
  Claim C10. For an id that is a key of the composite index, the cost is the sum over its
  component list and no catalog row with that id is read: two catalogs that differ only
  in rows with that id give the same cost. For the seeded globals, whatever unit price
  the row of id 901 carries, the cost of 901 is 285.50.
\<close>

theorem composite_cost_ignores_own_catalog_row:
  assumes "composite pid = Some parts"
  shows "calculate_composite_cost (Suc depth) composite inventory pid
           = py_sum (map (calculate_composite_cost depth composite inventory) parts)
     \<and> (filter (\<lambda>p. ident p \<noteq> pid) inventory = filter (\<lambda>p. ident p \<noteq> pid) inventory' \<longrightarrow>
          calculate_composite_cost d composite inventory pid
            = calculate_composite_cost d composite inventory' pid)
     \<and> calculate_composite_cost (Suc (Suc depth)) COMPOSITE_PRODUCTS
          (map (\<lambda>p. if ident p = 901 then p\<lparr>unit_price := v\<rparr> else p) initial_INVENTORY) 901
         = Some (571 / 2)"
proof (intro conjI impI)
  show "calculate_composite_cost (Suc depth) composite inventory pid
           = py_sum (map (calculate_composite_cost depth composite inventory) parts)"
    using assms by simp
next
  assume "filter (\<lambda>p. ident p \<noteq> pid) inventory = filter (\<lambda>p. ident p \<noteq> pid) inventory'"
  then show "calculate_composite_cost d composite inventory pid
            = calculate_composite_cost d composite inventory' pid"
    using assms by (rule cost_ignores_composite_rows[rotated])
next
  show "calculate_composite_cost (Suc (Suc depth)) COMPOSITE_PRODUCTS
          (map (\<lambda>p. if ident p = 901 then p\<lparr>unit_price := v\<rparr> else p) initial_INVENTORY) 901
         = Some (571 / 2)"
    by (simp add: COMPOSITE_PRODUCTS_def initial_INVENTORY_def py_sum_def)
qed

theorem composite_cost_ignores_own_catalog_row_witness:
  "COMPOSITE_PRODUCTS 901 = Some [101, 102, 103]
   \<and> calculate_composite_cost 2 COMPOSITE_PRODUCTS
         (filter (\<lambda>p. ident p \<noteq> 901) initial_INVENTORY) 901
       = calculate_composite_cost 2 COMPOSITE_PRODUCTS initial_INVENTORY 901
   \<and> calculate_composite_cost (Suc 1) COMPOSITE_PRODUCTS initial_INVENTORY 901
       = py_sum (map (calculate_composite_cost 1 COMPOSITE_PRODUCTS initial_INVENTORY)
           [101, 102, 103])"
proof -
  have h: "COMPOSITE_PRODUCTS 901 = Some [101, 102, 103]"
    by (simp add: COMPOSITE_PRODUCTS_def)
  have same_rest:
    "filter (\<lambda>p. ident p \<noteq> 901) (filter (\<lambda>p. ident p \<noteq> 901) initial_INVENTORY)
       = filter (\<lambda>p. ident p \<noteq> 901) initial_INVENTORY"
    by simp
  note t = composite_cost_ignores_own_catalog_row[
      where composite = COMPOSITE_PRODUCTS and pid = 901 and parts = "[101, 102, 103]"
        and inventory = "filter (\<lambda>p. ident p \<noteq> 901) initial_INVENTORY"
        and inventory' = initial_INVENTORY and d = 2, OF h]
  note u = composite_cost_ignores_own_catalog_row[
      where composite = COMPOSITE_PRODUCTS and pid = 901 and parts = "[101, 102, 103]"
        and inventory = initial_INVENTORY and depth = 1, OF h]
  from t same_rest
  have "calculate_composite_cost 2 COMPOSITE_PRODUCTS
         (filter (\<lambda>p. ident p \<noteq> 901) initial_INVENTORY) 901
       = calculate_composite_cost 2 COMPOSITE_PRODUCTS initial_INVENTORY 901"
    by blast
  moreover from u
  have "calculate_composite_cost (Suc 1) COMPOSITE_PRODUCTS initial_INVENTORY 901
       = py_sum (map (calculate_composite_cost 1 COMPOSITE_PRODUCTS initial_INVENTORY)
           [101, 102, 103])"
    by blast
  ultimately show ?thesis using h by blast
qed

lemma costs_of_parts:
  assumes "list_all2 (\<lambda>part v. \<exists>d. calculate_composite_cost d composite inventory part = Some v) parts vs"
  shows "\<exists>d. map (calculate_composite_cost d composite inventory) parts = map Some vs"
  using assms
proof (induction parts vs rule: list_all2_induct)
  case Nil
  show ?case by simp
next
  case (Cons part parts v vs)
  then obtain d1 d2 where d1: "calculate_composite_cost d1 composite inventory part = Some v"
    and d2: "map (calculate_composite_cost d2 composite inventory) parts = map Some vs"
    by blast
  have "calculate_composite_cost (max d1 d2) composite inventory part = Some v"
    using d1 by (rule cost_depth_mono) simp
  moreover have "map (calculate_composite_cost (max d1 d2) composite inventory) parts = map Some vs"
  proof (rule nth_equalityI)
    show "length (map (calculate_composite_cost (max d1 d2) composite inventory) parts)
            = length (map Some vs)"
      using arg_cong[OF d2, of length] by simp
  next
    fix i assume i: "i < length (map (calculate_composite_cost (max d1 d2) composite inventory) parts)"
    then have "calculate_composite_cost d2 composite inventory (parts ! i) = Some (vs ! i)"
      using arg_cong[OF d2, of "\<lambda>l. l ! i"] arg_cong[OF d2, of length] by simp
    then have "calculate_composite_cost (max d1 d2) composite inventory (parts ! i) = Some (vs ! i)"
      by (rule cost_depth_mono) simp
    then show "map (calculate_composite_cost (max d1 d2) composite inventory) parts ! i
                 = map Some vs ! i"
      using i arg_cong[OF d2, of length] by simp
  qed
  ultimately have "map (calculate_composite_cost (max d1 d2) composite inventory) (part # parts)
                     = map Some (v # vs)"
    by simp
  then show ?case by blast
qed

lemma map_eq_Some_all2:
  "map f parts = map Some vs \<Longrightarrow> list_all2 (\<lambda>part v. f part = Some v) parts vs"
  by (induction parts arbitrary: vs) auto

lemma seeded_cost_returns:
  "\<exists>v. calculate_composite_cost (Suc (Suc depth)) COMPOSITE_PRODUCTS inventory pid = Some v"
proof (cases "pid = 901")
  case True
  then show ?thesis
    by (simp add: COMPOSITE_PRODUCTS_def py_sum_def split: option.splits)
next
  case False
  then show ?thesis
    by (simp add: COMPOSITE_PRODUCTS_def split: option.splits)
qed

text \<open>
  Claim C3. For an id that is a key of the composite index, the cost is the sum, taken
  from 0 and from left to right, of the costs of the ids in its component list: when every
  part returns a cost, the composite returns their sum, and a cost that the composite
  returns is the sum of costs that its parts return one call deeper. On the composite
  index of the program every query returns once two nested calls are allowed, whatever
  the catalog holds. With the seeded prices 75.50, 120.00 and 90.00 of the ids 101, 102
  and 103 and the component list [101, 102, 103] of 901, the cost of 901 is 285.50.
\<close>

theorem composite_cost_is_sum_of_parts:
  assumes "composite pid = Some parts"
  shows "(\<forall>vs. list_all2 (\<lambda>part v. \<exists>d. calculate_composite_cost d composite inventory part = Some v)
                 parts vs \<longrightarrow>
            (\<exists>d. calculate_composite_cost d composite inventory pid = Some (foldl (+) 0 vs)))
       \<and> (\<forall>d v. calculate_composite_cost d composite inventory pid = Some v \<longrightarrow>
            (\<exists>vs. list_all2 (\<lambda>part v. calculate_composite_cost (d - 1) composite inventory part = Some v)
                    parts vs
                 \<and> v = foldl (+) 0 vs))
       \<and> (\<exists>v. calculate_composite_cost (Suc (Suc depth)) COMPOSITE_PRODUCTS catalog x = Some v)
       \<and> calculate_composite_cost (Suc (Suc depth)) COMPOSITE_PRODUCTS initial_INVENTORY 901
           = Some (285.50)"
proof (intro conjI allI impI)
  fix vs
  assume "list_all2 (\<lambda>part v. \<exists>d. calculate_composite_cost d composite inventory part = Some v)
            parts vs"
  then obtain d where "map (calculate_composite_cost d composite inventory) parts = map Some vs"
    using costs_of_parts by blast
  then have "calculate_composite_cost (Suc d) composite inventory pid = Some (foldl (+) 0 vs)"
    using assms by (simp add: py_sum_def sum_from_values)
  then show "\<exists>d. calculate_composite_cost d composite inventory pid = Some (foldl (+) 0 vs)"
    by blast
next
  fix d v
  assume r: "calculate_composite_cost d composite inventory pid = Some v"
  then obtain e where e: "d = Suc e" by (cases d) auto
  with r assms have "py_sum (map (calculate_composite_cost e composite inventory) parts) = Some v"
    by simp
  then obtain vs where "map (calculate_composite_cost e composite inventory) parts = map Some vs"
    and "v = foldl (+) 0 vs"
    using sum_from_Some by (fastforce simp: py_sum_def)
  then show "\<exists>vs. list_all2 (\<lambda>part v. calculate_composite_cost (d - 1) composite inventory part = Some v)
                    parts vs
                 \<and> v = foldl (+) 0 vs"
    using e map_eq_Some_all2 by fastforce
next
  show "\<exists>v. calculate_composite_cost (Suc (Suc depth)) COMPOSITE_PRODUCTS catalog x = Some v"
    by (rule seeded_cost_returns)
next
  show "calculate_composite_cost (Suc (Suc depth)) COMPOSITE_PRODUCTS initial_INVENTORY 901
           = Some (285.50)"
    by (simp add: COMPOSITE_PRODUCTS_def initial_INVENTORY_def py_sum_def)
qed

theorem composite_cost_is_sum_of_parts_witness:
  "COMPOSITE_PRODUCTS 901 = Some [101, 102, 103]
   \<and> list_all2 (\<lambda>part v. \<exists>d. calculate_composite_cost d COMPOSITE_PRODUCTS initial_INVENTORY part = Some v)
        [101, 102, 103] [75.50, 120.00, 90.00]
   \<and> (\<exists>d. calculate_composite_cost d COMPOSITE_PRODUCTS initial_INVENTORY 901 = Some 285.50)"
proof -
  have h: "COMPOSITE_PRODUCTS 901 = Some [101, 102, 103]"
    by (simp add: COMPOSITE_PRODUCTS_def)
  have "calculate_composite_cost (Suc 0) COMPOSITE_PRODUCTS initial_INVENTORY 101 = Some 75.50"
    "calculate_composite_cost (Suc 0) COMPOSITE_PRODUCTS initial_INVENTORY 102 = Some 120.00"
    "calculate_composite_cost (Suc 0) COMPOSITE_PRODUCTS initial_INVENTORY 103 = Some 90.00"
    by (simp_all add: COMPOSITE_PRODUCTS_def initial_INVENTORY_def)
  then have parts:
    "list_all2 (\<lambda>part v. \<exists>d. calculate_composite_cost d COMPOSITE_PRODUCTS initial_INVENTORY part = Some v)
        [101, 102, 103] [75.50, 120.00, 90.00]"
    by (auto intro: exI[where x = "Suc 0"])
  note t = composite_cost_is_sum_of_parts[where composite = COMPOSITE_PRODUCTS and pid = 901
      and parts = "[101, 102, 103]" and inventory = initial_INVENTORY, OF h]
  from t parts
  have "\<exists>d. calculate_composite_cost d COMPOSITE_PRODUCTS initial_INVENTORY 901
              = Some (foldl (+) 0 [75.50, 120.00, 90.00])"
    by blast
  then have "\<exists>d. calculate_composite_cost d COMPOSITE_PRODUCTS initial_INVENTORY 901 = Some 285.50"
    by simp
  then show ?thesis using h parts by blast
qed

section \<open>Catalog ids\<close>

lemma add_new_product_cases:
  assumes "add_new_product now name_in category_in price_in stock_in s = (outcome, s')"
  shows "(outcome = Invalid_input \<and> s' = s)
       \<or> (\<exists>price stock. price_in = Some price \<and> stock_in = Some stock \<and> INVENTORY s \<noteq> []
            \<and> outcome = Added (Max (ident ` set (INVENTORY s)) + 1)
            \<and> s' = s\<lparr>INVENTORY := INVENTORY s @
                       [\<lparr>ident = Max (ident ` set (INVENTORY s)) + 1, pname = name_in,
                         category = category_in, unit_price = price, stock_quantity = stock\<rparr>],
                     ledger := add_transaction now (Max (ident ` set (INVENTORY s)) + 1)
                                 ''initial stock'' stock (ledger s)\<rparr>)"
proof (cases "price_in = None \<or> stock_in = None \<or> INVENTORY s = []")
  case True
  then show ?thesis using assms
    by (auto simp: add_new_product_def split: option.splits)
next
  case False
  then obtain price stock where in_ok: "price_in = Some price" "stock_in = Some stock" by auto
  have "py_max (map ident (INVENTORY s)) = Some (Max (ident ` set (INVENTORY s)))"
    using False py_max_eq_Max[of "map ident (INVENTORY s)"] by simp
  then show ?thesis using assms in_ok False
    by (auto simp: add_new_product_def Let_def)
qed

lemma add_new_product_valid:
  assumes "INVENTORY s \<noteq> []"
  shows "\<exists>s'. add_new_product now name_in category_in (Some price) (Some stock) s
           = (Added (Max (ident ` set (INVENTORY s)) + 1), s')"
proof -
  have "py_max (map ident (INVENTORY s)) = Some (Max (ident ` set (INVENTORY s)))"
    using assms py_max_eq_Max[of "map ident (INVENTORY s)"] by simp
  then show ?thesis by (simp add: add_new_product_def Let_def)
qed

lemma add_new_product_step:
  assumes "add_new_product now name_in category_in price_in stock_in s = (outcome, s')"
    and "INVENTORY s \<noteq> []"
  shows "INVENTORY s' \<noteq> []" and "set (INVENTORY s) \<subseteq> set (INVENTORY s')"
    and "outcome = Added b \<Longrightarrow> b = Max (ident ` set (INVENTORY s)) + 1"
    and "outcome = Added b \<Longrightarrow> b \<in> ident ` set (INVENTORY s')"
    and "outcome = Added b \<Longrightarrow> p \<in> set (INVENTORY s) \<Longrightarrow> ident p < b"
proof -
  note c = add_new_product_cases[OF assms(1)]
  show "INVENTORY s' \<noteq> []" using c assms(2) by auto
  show "set (INVENTORY s) \<subseteq> set (INVENTORY s')" using c by auto
  show b: "outcome = Added b \<Longrightarrow> b = Max (ident ` set (INVENTORY s)) + 1" using c by auto
  show "outcome = Added b \<Longrightarrow> b \<in> ident ` set (INVENTORY s')" using c by force
  show "outcome = Added b \<Longrightarrow> p \<in> set (INVENTORY s) \<Longrightarrow> ident p < b"
  proof -
    assume o: "outcome = Added b" and p: "p \<in> set (INVENTORY s)"
    from o have "b = Max (ident ` set (INVENTORY s)) + 1" by (rule b)
    moreover have "ident p \<le> Max (ident ` set (INVENTORY s))" using p by simp
    ultimately show "ident p < b" by simp
  qed
qed

lemma add_calls_ids_increase:
  assumes "INVENTORY s \<noteq> []" and "j < length calls" and "fst (add_calls calls s) ! j = Added b"
  shows "b = Max (ident ` set (INVENTORY (snd (add_calls (take j calls) s)))) + 1
       \<and> (\<forall>p \<in> set (INVENTORY s). ident p < b)
       \<and> (\<forall>i < j. \<forall>a. fst (add_calls calls s) ! i = Added a \<longrightarrow> a < b)"
  using assms
proof (induction calls arbitrary: s j)
  case Nil
  then show ?case by simp
next
  case (Cons call rest)
  obtain now name_in category_in price_in stock_in
    where call: "call = (now, name_in, category_in, price_in, stock_in)"
    by (cases call) auto
  obtain outcome s1
    where step: "add_new_product now name_in category_in price_in stock_in s = (outcome, s1)"
    by (cases "add_new_product now name_in category_in price_in stock_in s")
  obtain outcomes s2 where tail: "add_calls rest s1 = (outcomes, s2)"
    by (cases "add_calls rest s1")
  have all: "add_calls (call # rest) s = (outcome # outcomes, s2)"
    using call step tail by simp
  note st = add_new_product_step[OF step Cons.prems(1)]
  show ?case
  proof (cases j)
    case 0
    then have "outcome = Added b" using Cons.prems(3) all by simp
    then show ?thesis using 0 st(3) st(5) by auto
  next
    case (Suc j')
    then have j': "j' < length rest" and b: "fst (add_calls rest s1) ! j' = Added b"
      using Cons.prems(2,3) all tail by auto
    note IH = Cons.IH[OF st(1) j' b]
    obtain outs' s' where pre: "add_calls (take j' rest) s1 = (outs', s')"
      by (cases "add_calls (take j' rest) s1")
    have "snd (add_calls (take j (call # rest)) s) = snd (add_calls (take j' rest) s1)"
      using Suc call step pre by simp
    then have one: "b = Max (ident ` set (INVENTORY (snd (add_calls (take j (call # rest)) s)))) + 1"
      using IH by simp
    have two: "\<forall>p \<in> set (INVENTORY s). ident p < b" using IH st(2) by blast
    have three: "\<forall>i < j. \<forall>a. fst (add_calls (call # rest) s) ! i = Added a \<longrightarrow> a < b"
    proof (intro allI impI)
      fix i a assume i: "i < j" and a: "fst (add_calls (call # rest) s) ! i = Added a"
      show "a < b"
      proof (cases i)
        case 0
        then have "outcome = Added a" using a all by simp
        then have "a \<in> ident ` set (INVENTORY s1)" by (rule st(4))
        then show ?thesis using IH by auto
      next
        case (Suc i')
        then have "i' < j'" "fst (add_calls rest s1) ! i' = Added a"
          using i \<open>j = Suc j'\<close> a all tail by auto
        then show ?thesis using IH by blast
      qed
    qed
    from one two three show ?thesis by blast
  qed
qed

text \<open>
  Claim C4. On a catalog that is not empty, an \<open>add_new_product\<close> call with numeric
  inputs assigns the greatest id of the catalog plus one. In a sequence of such calls,
  every assigned id is the greatest id of the catalog at that call plus one, is greater
  than every id of the catalog the sequence started from, and is greater than every id
  that an earlier call of the sequence assigned.
\<close>

theorem assigned_ids_strictly_increase:
  assumes "INVENTORY s \<noteq> []"
  shows "(\<exists>s'. add_new_product now name_in category_in (Some price) (Some stock) s
                 = (Added (Max (ident ` set (INVENTORY s)) + 1), s'))
       \<and> (\<forall>j b. j < length calls \<and> fst (add_calls calls s) ! j = Added b \<longrightarrow>
             b = Max (ident ` set (INVENTORY (snd (add_calls (take j calls) s)))) + 1
           \<and> (\<forall>p \<in> set (INVENTORY s). ident p < b)
           \<and> (\<forall>i < j. \<forall>a. fst (add_calls calls s) ! i = Added a \<longrightarrow> a < b))"
  using add_new_product_valid[OF assms] add_calls_ids_increase[OF assms] by blast

theorem assigned_ids_strictly_increase_witness:
  "INVENTORY (initial_state (\<lambda>k. 0)) \<noteq> []
   \<and> fst (add_calls [(0, ''Monitor'', ''Electronics'', Some 199, Some 5),
                     (1, ''Cable'', ''Electronics'', None, Some 5),
                     (2, ''Stool'', ''Furniture'', Some 30, Some 7)] (initial_state (\<lambda>k. 0)))
       = [Added 902, Invalid_input, Added 903]
   \<and> Max (ident ` set (INVENTORY (snd (add_calls
         (take 2 [(0, ''Monitor'', ''Electronics'', Some 199, Some 5),
                  (1, ''Cable'', ''Electronics'', None, Some 5),
                  (2, ''Stool'', ''Furniture'', Some 30, Some 7)]) (initial_state (\<lambda>k. 0)))))) + 1
       = 903"
proof -
  let ?s = "initial_state (\<lambda>k. 0)"
  let ?calls = "[(0, ''Monitor'', ''Electronics'', Some (199 :: rat), Some 5),
                 (1, ''Cable'', ''Electronics'', None, Some 5),
                 (2, ''Stool'', ''Furniture'', Some 30, Some 7)]"
  have h: "INVENTORY ?s \<noteq> []"
    by (simp add: initial_state_def initial_INVENTORY_def)
  have outs: "fst (add_calls ?calls ?s) = [Added 902, Invalid_input, Added 903]"
    by (simp add: initial_state_def initial_INVENTORY_def add_new_product_def Let_def)
  then have j: "2 < length ?calls \<and> fst (add_calls ?calls ?s) ! 2 = Added 903"
    by simp
  note t = assigned_ids_strictly_increase[OF h, where calls = ?calls]
  from t j
  have "903 = Max (ident ` set (INVENTORY (snd (add_calls (take 2 ?calls) ?s)))) + 1"
    by blast
  then show ?thesis using h outs by simp
qed

section \<open>The ledger is append-only\<close>

lemma place_order_ledger: "ledger (snd (place_order now pid_in quantity_in s)) = ledger s"
  by (simp add: place_order_def Let_def split: option.splits)

lemma add_new_product_backorder_queue:
  "backorder_queue (snd (add_new_product now name_in category_in price_in stock_in s))
     = backorder_queue s"
  by (simp add: add_new_product_def Let_def split: option.splits)

lemma add_new_product_ledger:
  "prefix (transactions (ledger s))
     (transactions (ledger (snd (add_new_product now name_in category_in price_in stock_in s))))"
  by (simp add: add_new_product_def add_transaction_def Let_def split: option.splits)

lemma main_loop_Cons:
  "main_loop (c # rest) s =
     (if c = Exit \<or> c = Composite_cost None then s else main_loop rest (run_command c s))"
proof (cases c)
  case (Composite_cost entry)
  then show ?thesis by (cases entry) simp_all
qed simp_all

lemma main_loop_invariant:
  assumes "\<And>c t. P t \<Longrightarrow> P (run_command c t)" and "P s"
  shows "P (main_loop commands s)"
  using assms(2)
proof (induction commands arbitrary: s)
  case Nil
  then show ?case by simp
next
  case (Cons c rest)
  then show ?case using assms(1) by (simp add: main_loop_Cons)
qed

lemma main_loop_ledger:
  "prefix (transactions (ledger s)) (transactions (ledger (main_loop commands s)))"
proof (rule main_loop_invariant)
  fix c and t :: "'a state"
  assume before: "prefix (transactions (ledger s)) (transactions (ledger t))"
  have "prefix (transactions (ledger t)) (transactions (ledger (run_command c t)))"
    by (cases c) (simp_all add: add_new_product_ledger place_order_ledger)
  with before show "prefix (transactions (ledger s)) (transactions (ledger (run_command c t)))"
    by (rule prefix_order.trans)
next
  show "prefix (transactions (ledger s)) (transactions (ledger s))" by simp
qed

text \<open>
  Claim C5. \<open>add_transaction\<close> appends exactly one record to the ledger. A successful
  \<open>add_new_product\<close> call appends exactly one record, with the new id, the description
  "initial stock" and the entered stock as quantity change. Whatever commands the menu
  loop runs, the ledger it started from is a prefix of the ledger it ends with: no
  record is changed or removed.
\<close>

theorem ledger_append_only:
  "transactions (add_transaction now pid descr qty_change l)
     = transactions l @ [\<lparr>timestamp = now, product_id = pid, description = descr,
                          quantity_change = qty_change\<rparr>]
   \<and> (add_new_product now name_in category_in price_in stock_in s = (Added new_id, s') \<longrightarrow>
        (\<exists>stock. stock_in = Some stock
           \<and> transactions (ledger s')
               = transactions (ledger s) @ [\<lparr>timestamp = now, product_id = new_id,
                    description = ''initial stock'', quantity_change = stock\<rparr>]))
   \<and> (INVENTORY s \<noteq> [] \<longrightarrow>
        length (transactions (ledger (snd (add_new_product now name_in category_in
                  (Some price) (Some stock) s))))
          = length (transactions (ledger s)) + 1)
   \<and> prefix (transactions (ledger s)) (transactions (ledger (main_loop commands s)))
   \<and> (\<forall>i < length (transactions (ledger s)).
         transactions (ledger (main_loop commands s)) ! i = transactions (ledger s) ! i)"
proof (intro conjI impI allI)
  show "transactions (add_transaction now pid descr qty_change l)
     = transactions l @ [\<lparr>timestamp = now, product_id = pid, description = descr,
                          quantity_change = qty_change\<rparr>]"
    by (simp add: add_transaction_def)
next
  assume "add_new_product now name_in category_in price_in stock_in s = (Added new_id, s')"
  from add_new_product_cases[OF this]
  show "\<exists>stock. stock_in = Some stock
           \<and> transactions (ledger s')
               = transactions (ledger s) @ [\<lparr>timestamp = now, product_id = new_id,
                    description = ''initial stock'', quantity_change = stock\<rparr>]"
    by (auto simp: add_transaction_def)
next
  assume "INVENTORY s \<noteq> []"
  from add_new_product_valid[OF this, of now name_in category_in price stock]
  obtain s1 where s1: "add_new_product now name_in category_in (Some price) (Some stock) s
           = (Added (Max (ident ` set (INVENTORY s)) + 1), s1)" by blast
  from add_new_product_cases[OF s1]
  have "length (transactions (ledger s1)) = length (transactions (ledger s)) + 1"
    by (auto simp: add_transaction_def)
  then show "length (transactions (ledger (snd (add_new_product now name_in category_in
                  (Some price) (Some stock) s))))
          = length (transactions (ledger s)) + 1"
    using s1 by simp
next
  show "prefix (transactions (ledger s)) (transactions (ledger (main_loop commands s)))"
    by (rule main_loop_ledger)
next
  fix i assume "i < length (transactions (ledger s))"
  then show "transactions (ledger (main_loop commands s)) ! i = transactions (ledger s) ! i"
    using main_loop_ledger[of s commands] by (auto simp: prefix_def nth_append)
qed

theorem ledger_append_only_witness:
  "INVENTORY (initial_state (\<lambda>k. 0)) \<noteq> []
   \<and> fst (add_new_product 7 ''Monitor'' ''Electronics'' (Some 199) (Some 5)
          (initial_state (\<lambda>k. 0))) = Added 902
   \<and> transactions (ledger (snd (add_new_product 7 ''Monitor'' ''Electronics'' (Some 199) (Some 5)
          (initial_state (\<lambda>k. 0)))))
       = transactions (ledger (initial_state (\<lambda>k. 0)))
           @ [\<lparr>timestamp = 7, product_id = 902, description = ''initial stock'',
                quantity_change = 5\<rparr>]
   \<and> length (transactions (ledger (snd (add_new_product 7 ''Monitor'' ''Electronics''
          (Some 199) (Some 5) (initial_state (\<lambda>k. 0))))))
       = length (transactions (ledger (initial_state (\<lambda>k. 0)))) + 1"
proof -
  let ?s = "initial_state (\<lambda>k. 0)"
  let ?r = "add_new_product 7 ''Monitor'' ''Electronics'' (Some (199 :: rat)) (Some 5) ?s"
  have h: "INVENTORY ?s \<noteq> []"
    by (simp add: initial_state_def initial_INVENTORY_def)
  have r: "fst ?r = Added 902"
    by (simp add: initial_state_def initial_INVENTORY_def add_new_product_def Let_def)
  then have call: "?r = (Added 902, snd ?r)"
    by (metis prod.collapse)
  note t = ledger_append_only[where s = ?s and now = 7 and name_in = "''Monitor''"
      and category_in = "''Electronics''" and price_in = "Some 199" and stock_in = "Some 5"
      and new_id = 902 and s' = "snd ?r" and price = 199 and stock = 5]
  from t call
  have "\<exists>stock. Some 5 = Some stock
          \<and> transactions (ledger (snd ?r))
              = transactions (ledger ?s) @ [\<lparr>timestamp = 7, product_id = 902,
                  description = ''initial stock'', quantity_change = stock\<rparr>]"
    by blast
  then have a: "transactions (ledger (snd ?r))
              = transactions (ledger ?s) @ [\<lparr>timestamp = 7, product_id = 902,
                  description = ''initial stock'', quantity_change = 5\<rparr>]"
    by auto
  from t h
  have b: "length (transactions (ledger (snd ?r))) = length (transactions (ledger ?s)) + 1"
    by blast
  from h r a b show ?thesis by blast
qed

section \<open>The backorder queue is a min-heap on the order tuples\<close>

lemma heap_invariant_Nil: "heap_invariant []"
  by (simp add: heap_invariant_def)

lemma place_order_heap_invariant:
  "heap_invariant (backorder_queue s) \<Longrightarrow>
     heap_invariant (backorder_queue (snd (place_order now pid_in quantity_in s)))"
  by (simp add: place_order_def Let_def heappush_heap_invariant split: option.splits)

lemma main_loop_heap_invariant:
  assumes "heap_invariant (backorder_queue s)"
  shows "heap_invariant (backorder_queue (main_loop commands s))"
proof (rule main_loop_invariant)
  fix c and t :: "'a state"
  assume "heap_invariant (backorder_queue t)"
  then show "heap_invariant (backorder_queue (run_command c t))"
    by (cases c) (simp_all add: add_new_product_backorder_queue place_order_heap_invariant)
next
  show "heap_invariant (backorder_queue s)" by (rule assms)
qed

lemma pop_min_least:
  assumes "heap_invariant q" and "q \<noteq> []"
  shows "\<exists>m q'. pop_min q = Some (m, q') \<and> peek_min q = Some m
           \<and> (\<forall>x \<in> set q. \<not> order_lt x m)
           \<and> mset q = add_mset m (mset q') \<and> heap_invariant q'"
proof -
  from heappop_correct[OF assms]
  obtain q' where q': "heappop q = Some (q ! 0, q')" "heap_invariant q'"
    "mset q = add_mset (q ! 0) (mset q')" by blast
  have "\<forall>x \<in> set q. \<not> order_lt x (q ! 0)"
  proof
    fix x assume "x \<in> set q"
    then obtain k where "k < length q" "x = q ! k" by (auto simp: in_set_conv_nth)
    then have "q ! 0 \<le> x" using heap_root_least[OF assms(1)] by simp
    then show "\<not> order_lt x (q ! 0)" by (simp add: order_lt_iff_less not_less)
  qed
  then show ?thesis using q' assms(2) by (simp add: pop_min_def peek_min_def)
qed

text \<open>
  Claim C2. The comparison of the backorder heap is the lexicographic order of the tuple
  (order id, then product id, then quantity). The backorder queue of every state that the
  menu loop reaches from the initial state has the heap property, so \<open>pop_min\<close> returns
  an order that no queued order is smaller than, and leaves a heap of the other orders.
  After two insufficient-stock submissions with the order ids 5 and then 3, \<open>pop_min\<close>
  returns the order with id 3.
\<close>

theorem backorder_queue_pop_min_is_least:
  "(order_lt a b \<longleftrightarrow>
      fst a < fst b
      \<or> (fst a = fst b
          \<and> (fst (snd a) < fst (snd b)
              \<or> (fst (snd a) = fst (snd b) \<and> snd (snd a) < snd (snd b)))))
   \<and> heap_invariant (backorder_queue (main_loop commands (initial_state clock)))
   \<and> (heap_invariant (backorder_queue s) \<longrightarrow>
        heap_invariant (backorder_queue (snd (place_order now pid_in quantity_in s))))
   \<and> (heap_invariant q \<and> q \<noteq> [] \<longrightarrow>
        (\<exists>m q'. pop_min q = Some (m, q') \<and> peek_min q = Some m
           \<and> (\<forall>x \<in> set q. \<not> order_lt x m)
           \<and> mset q = add_mset m (mset q') \<and> heap_invariant q'))
   \<and> pop_min (backorder_queue
         (main_loop [Place_order 5000000 (Some 901) (Some 11),
                     Place_order 3000000 (Some 901) (Some 11)] (initial_state clock)))
       = Some ((3, 901, 11), [(5, 901, 11)])"
proof (intro conjI impI)
  show "order_lt a b \<longleftrightarrow>
      fst a < fst b
      \<or> (fst a = fst b
          \<and> (fst (snd a) < fst (snd b)
              \<or> (fst (snd a) = fst (snd b) \<and> snd (snd a) < snd (snd b))))"
    by (auto simp: order_lt_def split: prod.splits)
next
  show "heap_invariant (backorder_queue (main_loop commands (initial_state clock)))"
    by (rule main_loop_heap_invariant) (simp add: initial_state_def heap_invariant_Nil)
next
  assume "heap_invariant (backorder_queue s)"
  then show "heap_invariant (backorder_queue (snd (place_order now pid_in quantity_in s)))"
    by (rule place_order_heap_invariant)
next
  assume "heap_invariant q \<and> q \<noteq> []"
  then show "\<exists>m q'. pop_min q = Some (m, q') \<and> peek_min q = Some m
           \<and> (\<forall>x \<in> set q. \<not> order_lt x m)
           \<and> mset q = add_mset m (mset q') \<and> heap_invariant q'"
    using pop_min_least by blast
next
  show "pop_min (backorder_queue
         (main_loop [Place_order 5000000 (Some 901) (Some 11),
                     Place_order 3000000 (Some 901) (Some 11)] (initial_state clock)))
       = Some ((3, 901, 11), [(5, 901, 11)])"
    by (simp add: place_order_def initial_state_def initial_INVENTORY_def Let_def
        timestamp_seconds_def heappush_def siftdown_def siftdown_loop.simps order_lt_def
        pop_min_def heappop_def siftup_def siftup_loop.simps)
qed

theorem backorder_queue_pop_min_is_least_witness:
  "backorder_queue
       (main_loop [Place_order 5000000 (Some 901) (Some 11),
                   Place_order 3000000 (Some 901) (Some 11)] (initial_state (\<lambda>k. 0)))
     = [(3, 901, 11), (5, 901, 11)]
   \<and> heap_invariant [(3, 901, 11), (5, 901, 11)]
   \<and> peek_min [(3, 901, 11), (5, 901, 11)] = Some (3, 901, 11)
   \<and> \<not> order_lt (5, 901, 11) (3, 901, 11)"
proof -
  let ?q = "[(3, 901, 11), (5, 901, 11)] :: order list"
  let ?cs = "[Place_order 5000000 (Some 901) (Some 11),
              Place_order 3000000 (Some 901) (Some 11)] :: rat command list"
  note t = backorder_queue_pop_min_is_least[where commands = ?cs and clock = "\<lambda>k. 0"
      and q = ?q]
  have q: "backorder_queue (main_loop ?cs (initial_state (\<lambda>k. 0))) = ?q"
    by (simp add: place_order_def initial_state_def initial_INVENTORY_def Let_def
        timestamp_seconds_def heappush_def siftdown_def siftdown_loop.simps order_lt_def)
  from t have "heap_invariant (backorder_queue (main_loop ?cs (initial_state (\<lambda>k. 0))))"
    by blast
  then have inv: "heap_invariant ?q" by (simp only: q)
  then have "heap_invariant ?q \<and> ?q \<noteq> []" by simp
  with t obtain m q' where m: "peek_min ?q = Some m" "\<forall>x \<in> set ?q. \<not> order_lt x m"
    by blast
  have peek: "peek_min ?q = Some (3, 901, 11)" by (simp add: peek_min_def)
  with m have "\<not> order_lt (5, 901, 11) (3, 901, 11)" by simp
  with q inv peek show ?thesis by blast
qed

section \<open>Order ids\<close>

text \<open>
  Claim C6. The order id is the clock reading truncated to whole seconds (the source
  comments it as a "simple unique order ID"). Two successive submissions whose clock
  readings fall into the same second receive the same order id, so the later id is not
  greater than the earlier one.
\<close>

theorem orders_in_one_second_share_order_id:
  "fst (place_order 1700000000200000 (Some 101) (Some 1) (initial_state (\<lambda>k. 0)))
     = Placed_in_order_queue (1700000000, 101, 1)
   \<and> fst (place_order 1700000000700000 (Some 102) (Some 2)
            (snd (place_order 1700000000200000 (Some 101) (Some 1) (initial_state (\<lambda>k. 0)))))
     = Placed_in_order_queue (1700000000, 102, 2)"
  by (simp add: place_order_def initial_state_def initial_INVENTORY_def Let_def
      timestamp_seconds_def)

end
